theory Spec2Isabelle
  imports Main "HOL-Library.AList" "HOL-Library.Multiset"
begin

section \<open>Round-robin standings: the data\<close>

text \<open>
  The development embeds \<^verbatim>\<open>compute_standings(matches_df, teams_list)\<close> of
  \<^verbatim>\<open>pickleball_streamlit_app.py\<close> (lines 5 to 28).

  A row of \<^verbatim>\<open>matches_df\<close> is read through the four columns the function uses;
  \<^verbatim>\<open>iterrows()\<close> yields the rows in order, so the frame is a list of matches.
  Scores are Python integers.
\<close>

record match =
  team_a :: string
  team_b :: string
  score_a :: int
  score_b :: int

text \<open>
  The inner dictionary \<^verbatim>\<open>{'Pld': 0, 'W': 0, 'L': 0, 'PF': 0, 'PA': 0, 'Pts': 0}\<close>
  kept for each team, and a row of the returned frame: the same six columns, the
  derived column \<^verbatim>\<open>PD\<close> and the former index, renamed \<^verbatim>\<open>team\<close>.
\<close>

record tally =
  Pld :: int
  W :: int
  L :: int
  PF :: int
  PA :: int
  Pts :: int

record standing = tally +
  PD :: int
  team :: string

text \<open>
  \<^verbatim>\<open>data\<close> is a Python dictionary: its keys are unique and iterate in insertion
  order, and assigning to a key that is present leaves the key where it is. An association
  list with \<^const>\<open>AList.update\<close> behaves so.
\<close>

type_synonym data = "(string \<times> tally) list"

text \<open>
  The only exception the function can raise is \<^verbatim>\<open>KeyError\<close>, from a dictionary or
  column lookup. \<open>ReferenceError\<close> and \<open>ValidationError\<close> are the two error kinds the
  specification names; no equation below produces them.
\<close>

datatype error = KeyError string | ReferenceError | ValidationError

section \<open>The function\<close>

definition zero_tally :: tally where
  "zero_tally = \<lparr>Pld = 0, W = 0, L = 0, PF = 0, PA = 0, Pts = 0\<rparr>"

text \<open>
  Line 11: the dictionary comprehension over \<^verbatim>\<open>teams_list\<close>. Each team gets an
  inner dictionary of its own, so no two teams share a tally; a team listed twice keeps
  the place of its first occurrence.
\<close>

definition init_data :: "string list \<Rightarrow> data" where
  "init_data teams_list = fold (\<lambda>team d. AList.update team zero_tally d) teams_list []"

text \<open>
  One augmented assignment \<^verbatim>\<open>data[k][col] += n\<close> is a pair of the key and the change
  to that team's tally. \<open>exec\<close> runs a sequence of them: each looks \<open>k\<close> up first and
  raises \<^verbatim>\<open>KeyError(k)\<close> when it is missing.
\<close>

type_synonym stmt = "string \<times> (tally \<Rightarrow> tally)"

fun exec :: "stmt list \<Rightarrow> data \<Rightarrow> error + data" where
  "exec [] d = Inr d"
| "exec ((k, f) # ss) d =
     (case map_of d k of
        None \<Rightarrow> Inl (KeyError k)
      | Some v \<Rightarrow> exec ss (AList.update k (f v) d))"

text \<open>Lines 14 to 22: the body of the loop, statement by statement.\<close>

definition stmts :: "match \<Rightarrow> stmt list" where
  "stmts m =
     (let a = team_a m; b = team_b m; sa = score_a m; sb = score_b m in
      [(a, \<lambda>v. v\<lparr>Pld := Pld v + 1\<rparr>), (b, \<lambda>v. v\<lparr>Pld := Pld v + 1\<rparr>),
       (a, \<lambda>v. v\<lparr>PF := PF v + sa\<rparr>), (a, \<lambda>v. v\<lparr>PA := PA v + sb\<rparr>),
       (b, \<lambda>v. v\<lparr>PF := PF v + sb\<rparr>), (b, \<lambda>v. v\<lparr>PA := PA v + sa\<rparr>)] @
      (if sa > sb
       then [(a, \<lambda>v. v\<lparr>W := W v + 1\<rparr>), (b, \<lambda>v. v\<lparr>L := L v + 1\<rparr>),
             (a, \<lambda>v. v\<lparr>Pts := Pts v + 2\<rparr>)]
       else [(b, \<lambda>v. v\<lparr>W := W v + 1\<rparr>), (a, \<lambda>v. v\<lparr>L := L v + 1\<rparr>),
             (b, \<lambda>v. v\<lparr>Pts := Pts v + 2\<rparr>)]))"

definition tally_match :: "match \<Rightarrow> data \<Rightarrow> error + data" where
  "tally_match m d = exec (stmts m) d"

text \<open>Line 13: the loop over the matches; an exception leaves it at once.\<close>

fun tally_loop :: "match list \<Rightarrow> data \<Rightarrow> error + data" where
  "tally_loop [] d = Inr d"
| "tally_loop (m # ms) d =
     (case tally_match m d of
        Inl e \<Rightarrow> Inl e
      | Inr d' \<Rightarrow> tally_loop ms d')"

text \<open>
  Lines 24 to 27. \<^verbatim>\<open>DataFrame.from_dict(data, orient='index')\<close> makes one row per key,
  in the dictionary's order, with the inner dictionaries' keys as columns. The tallies are
  Python integers; pandas stores each column exactly, in a type it infers from all the
  values of the column: \<^verbatim>\<open>int64\<close> when they all fit, \<^verbatim>\<open>uint64\<close> when some
  value exceeds the largest \<^verbatim>\<open>int64\<close> and none is negative or exceeds the largest
  \<^verbatim>\<open>uint64\<close>, and \<^verbatim>\<open>object\<close> (the Python integers themselves) otherwise.
\<close>

datatype dtype = Int64 | UInt64 | Object

definition INT64_MIN :: int where
  "INT64_MIN = - (2 ^ 63)"

definition INT64_MAX :: int where
  "INT64_MAX = 2 ^ 63 - 1"

definition UINT64_MAX :: int where
  "UINT64_MAX = 2 ^ 64 - 1"

definition infer_dtype :: "int list \<Rightarrow> dtype" where
  "infer_dtype xs =
     (if list_ex (\<lambda>x. UINT64_MAX < x \<or> x < INT64_MIN) xs then Object
      else if list_ex (\<lambda>x. INT64_MAX < x) xs
      then (if list_ex (\<lambda>x. x < 0) xs then Object else UInt64)
      else Int64)"

text \<open>
  \<^verbatim>\<open>df['PD'] = df['PF'] - df['PA']\<close> subtracts the two columns element by element in
  the arithmetic of their types. Two \<^verbatim>\<open>int64\<close> columns and two \<^verbatim>\<open>uint64\<close> columns
  subtract modulo \<open>2 ^ 64\<close> and wrap silently. One column of each kind is first
  converted to \<^verbatim>\<open>float64\<close>: every operand and the result are rounded to 53
  significant bits, ties to even; the values stay whole numbers, so the result is kept
  here as the integer it denotes. When a column has type \<^verbatim>\<open>object\<close> the subtraction is
  that of Python integers and is exact.
\<close>

definition wrap_int64 :: "int \<Rightarrow> int" where
  "wrap_int64 n = (n + 2 ^ 63) mod 2 ^ 64 - 2 ^ 63"

definition wrap_uint64 :: "int \<Rightarrow> int" where
  "wrap_uint64 n = n mod 2 ^ 64"

function bit_length :: "int \<Rightarrow> nat" where
  "bit_length n = (if n \<le> 0 then 0 else Suc (bit_length (n div 2)))"
  by pat_completeness auto
termination
  by (relation "measure nat") auto

definition to_float64 :: "int \<Rightarrow> int" where
  "to_float64 n =
     (if \<bar>n\<bar> < 2 ^ 53 then n
      else
        (let e = bit_length \<bar>n\<bar> - 53;
             q = \<bar>n\<bar> div 2 ^ e;
             r = \<bar>n\<bar> mod 2 ^ e;
             q' = (if 2 ^ e < 2 * r \<or> (2 * r = 2 ^ e \<and> odd q) then q + 1 else q)
         in sgn n * (q' * 2 ^ e)))"

fun column_sub :: "dtype \<Rightarrow> dtype \<Rightarrow> int \<Rightarrow> int \<Rightarrow> int" where
  "column_sub Int64 Int64 x y = wrap_int64 (x - y)"
| "column_sub UInt64 UInt64 x y = wrap_uint64 (x - y)"
| "column_sub Int64 UInt64 x y = to_float64 (to_float64 x - to_float64 y)"
| "column_sub UInt64 Int64 x y = to_float64 (to_float64 x - to_float64 y)"
| "column_sub Object _ x y = x - y"
| "column_sub _ Object x y = x - y"

text \<open>
  A row of the frame after \<^verbatim>\<open>reset_index\<close> and the renaming of the index to
  \<^verbatim>\<open>team\<close>; \<open>tf\<close> and \<open>ta\<close> are the types of the columns \<^verbatim>\<open>PF\<close> and \<^verbatim>\<open>PA\<close>.
\<close>

definition to_row :: "dtype \<Rightarrow> dtype \<Rightarrow> string \<times> tally \<Rightarrow> standing" where
  "to_row tf ta kv =
     (case kv of (k, v) \<Rightarrow>
        \<lparr>Pld = Pld v, W = W v, L = L v, PF = PF v, PA = PA v, Pts = Pts v,
         PD = column_sub tf ta (PF v) (PA v), team = k\<rparr>)"

definition build_frame :: "data \<Rightarrow> standing list" where
  "build_frame d =
     map (to_row (infer_dtype (map (\<lambda>p. PF (snd p)) d)) (infer_dtype (map (\<lambda>p. PA (snd p)) d))) d"

text \<open>
  \<^verbatim>\<open>sort_values(['Pts', 'PD'], ascending=False)\<close>: pandas sorts on several columns
  with a stable lexicographic sort, so rows equal on both keys keep their order.
  \<open>ranks_before r s\<close> says that the key of \<open>r\<close> is at least the key of \<open>s\<close>.
\<close>

definition ranks_before :: "standing \<Rightarrow> standing \<Rightarrow> bool" where
  "ranks_before r s \<longleftrightarrow> Pts s < Pts r \<or> (Pts r = Pts s \<and> PD s \<le> PD r)"

fun place_row :: "standing \<Rightarrow> standing list \<Rightarrow> standing list" where
  "place_row r [] = [r]"
| "place_row r (s # rows) =
     (if ranks_before r s then r # s # rows else s # place_row r rows)"

definition sort_values :: "standing list \<Rightarrow> standing list" where
  "sort_values rows = foldr place_row rows []"

text \<open>
  The whole function. When \<^verbatim>\<open>data\<close> is empty, \<^verbatim>\<open>from_dict\<close> returns a frame with
  no columns at all, and the lookup \<^verbatim>\<open>df['PF']\<close> of line 25 raises
  \<^verbatim>\<open>KeyError('PF')\<close>.
\<close>

definition compute_standings :: "match list \<Rightarrow> string list \<Rightarrow> error + standing list" where
  "compute_standings matches_df teams_list =
     (case tally_loop matches_df (init_data teams_list) of
        Inl e \<Rightarrow> Inl e
      | Inr d \<Rightarrow>
          if d = [] then Inl (KeyError ''PF'')
          else Inr (sort_values (build_frame d)))"

section \<open>The inputs of the repository's own tests\<close>

text \<open>
  \<^verbatim>\<open>_test_compute_standings_basic\<close> and \<^verbatim>\<open>_test_compute_standings_tiebreak\<close>
  (lines 105 to 124) build their frames from these rows.
\<close>

abbreviation game :: "string \<Rightarrow> string \<Rightarrow> int \<Rightarrow> int \<Rightarrow> match" where
  "game a b sa sb \<equiv> \<lparr>team_a = a, team_b = b, score_a = sa, score_b = sb\<rparr>"

definition basic_matches :: "match list" where
  "basic_matches = [game ''X'' ''Y'' 11 5, game ''Y'' ''Z'' 7 11, game ''Z'' ''X'' 3 11]"

definition tiebreak_matches :: "match list" where
  "tiebreak_matches = [game ''A'' ''B'' 11 5, game ''B'' ''C'' 11 3, game ''C'' ''A'' 11 9]"

text \<open>
  A row of the returned frame, written in the column order of the docstring:
  team, Pld, W, L, PF, PA, PD, Pts.
\<close>

abbreviation row ::
  "string \<Rightarrow> int \<Rightarrow> int \<Rightarrow> int \<Rightarrow> int \<Rightarrow> int \<Rightarrow> int \<Rightarrow> int \<Rightarrow> standing" where
  "row k pld w l pf pa pd pts \<equiv>
     \<lparr>Pld = pld, W = w, L = l, PF = pf, PA = pa, Pts = pts, PD = pd, team = k\<rparr>"

section \<open>Notions used in the proofs\<close>

text \<open>Every match names two teams of the list.\<close>

definition known_teams :: "string list \<Rightarrow> match list \<Rightarrow> bool" where
  "known_teams teams_list ms \<longleftrightarrow> (\<forall>m\<in>set ms. team_a m \<in> set teams_list \<and> team_b m \<in> set teams_list)"

text \<open>
  What a sequence of statements does to the tally of one team \<open>k\<close>, what one match
  does to it, and what all matches do to it, starting from zero.
\<close>

definition apply_stmts :: "string \<Rightarrow> stmt list \<Rightarrow> tally \<Rightarrow> tally" where
  "apply_stmts k ss v = fold (\<lambda>s u. if fst s = k then snd s u else u) ss v"

definition credit :: "match \<Rightarrow> string \<Rightarrow> tally \<Rightarrow> tally" where
  "credit m k v = apply_stmts k (stmts m) v"

definition team_total :: "match list \<Rightarrow> string \<Rightarrow> tally" where
  "team_total ms k = fold (\<lambda>m. credit m k) ms zero_tally"

text \<open>The keys of the dictionary in their order, and the rows of the frame before sorting.\<close>

definition keys_of :: "string list \<Rightarrow> string list" where
  "keys_of ts = map fst (init_data ts)"

definition final_rows :: "match list \<Rightarrow> string list \<Rightarrow> standing list" where
  "final_rows ms ts = build_frame (map (\<lambda>p. (fst p, team_total ms (fst p))) (init_data ts))"

section \<open>The loop in closed form\<close>

text \<open>
  On a dictionary with unique keys, an assignment to a key that is present changes that
  entry only, so a run of statements with known keys maps each entry through its own
  statements.
\<close>

lemma update_present:
  "distinct (map fst d) \<Longrightarrow> map_of d k = Some v \<Longrightarrow>
   AList.update k (f v) d = map (\<lambda>p. (fst p, if fst p = k then f (snd p) else snd p)) d"
proof (induction d)
  case Nil
  then show ?case by simp
next
  case (Cons p d)
  show ?case
  proof (cases "fst p = k")
    case True
    with Cons.prems have "k \<notin> fst ` set d" by auto
    then have "map (\<lambda>p. (fst p, if fst p = k then f (snd p) else snd p)) d = d"
      by (induction d) auto
    with True Cons.prems show ?thesis by (cases p) auto
  next
    case False
    with Cons show ?thesis by (cases p) auto
  qed
qed

lemma apply_stmts_Cons:
  "apply_stmts k' ((k, f) # ss) v = apply_stmts k' ss (if k = k' then f v else v)"
  by (simp add: apply_stmts_def)

lemma exec_closed:
  "distinct (map fst d) \<Longrightarrow> fst ` set ss \<subseteq> fst ` set d \<Longrightarrow>
   exec ss d = Inr (map (\<lambda>p. (fst p, apply_stmts (fst p) ss (snd p))) d)"
proof (induction ss arbitrary: d)
  case Nil
  then show ?case by (simp add: apply_stmts_def)
next
  case (Cons s ss)
  obtain k f where s: "s = (k, f)" by (cases s)
  from Cons.prems(2) have "k \<in> fst ` set d" unfolding s by simp
  then obtain v where v: "map_of d k = Some v"
    by (metis domD dom_map_of_conv_image_fst)
  let ?d = "map (\<lambda>p. (fst p, if fst p = k then f (snd p) else snd p)) d"
  have upd: "AList.update k (f v) d = ?d"
    using Cons.prems(1) v by (rule update_present)
  have keys: "map fst ?d = map fst d" by (simp add: comp_def)
  have ks: "fst ` set ?d = fst ` set d" using keys by (metis list.set_map)
  have "exec ss ?d = Inr (map (\<lambda>p. (fst p, apply_stmts (fst p) ss (snd p))) ?d)"
  proof (rule Cons.IH)
    show "distinct (map fst ?d)" unfolding keys by (rule Cons.prems(1))
    from Cons.prems(2) show "fst ` set ss \<subseteq> fst ` set ?d" unfolding ks by simp
  qed
  moreover have "map (\<lambda>p. (fst p, apply_stmts (fst p) ss (snd p))) ?d
      = map (\<lambda>p. (fst p, apply_stmts (fst p) ((k, f) # ss) (snd p))) d"
    by (simp add: apply_stmts_Cons eq_commute [of k])
  ultimately show ?case
    unfolding s by (simp only: exec.simps v upd option.case)
qed

text \<open>The effect of one match on one team, column by column.\<close>

lemma credit_eq:
  "credit m k v =
     v\<lparr>Pld := Pld v + (if k = team_a m then 1 else 0) + (if k = team_b m then 1 else 0),
       W := W v + (if k = (if score_a m > score_b m then team_a m else team_b m) then 1 else 0),
       L := L v + (if k = (if score_a m > score_b m then team_b m else team_a m) then 1 else 0),
       PF := PF v + (if k = team_a m then score_a m else 0) + (if k = team_b m then score_b m else 0),
       PA := PA v + (if k = team_a m then score_b m else 0) + (if k = team_b m then score_a m else 0),
       Pts := Pts v + (if k = (if score_a m > score_b m then team_a m else team_b m) then 2 else 0)\<rparr>"
  by (simp add: credit_def apply_stmts_def stmts_def Let_def)

lemma credit_commute: "credit m k (credit m' k v) = credit m' k (credit m k v)"
  by (simp add: credit_eq)

lemma credit_played:
  "W v + L v = Pld v \<Longrightarrow> W (credit m k v) + L (credit m k v) = Pld (credit m k v)"
  by (auto simp: credit_eq)

lemma tally_match_closed:
  assumes "distinct (map fst d)" "team_a m \<in> fst ` set d" "team_b m \<in> fst ` set d"
  shows "tally_match m d = Inr (map (\<lambda>p. (fst p, credit m (fst p) (snd p))) d)"
proof -
  have "fst ` set (stmts m) \<subseteq> fst ` set d"
    using assms(2,3) by (simp add: stmts_def Let_def)
  with assms(1) show ?thesis
    unfolding tally_match_def credit_def by (rule exec_closed)
qed

text \<open>The first lookup of an unknown team raises.\<close>

lemma tally_match_unknown_a:
  assumes "team_a m \<notin> fst ` set d"
  shows "tally_match m d = Inl (KeyError (team_a m))"
proof -
  from assms have "map_of d (team_a m) = None" by (simp add: map_of_eq_None_iff)
  then show ?thesis by (simp add: tally_match_def stmts_def Let_def)
qed

lemma tally_match_unknown_b:
  assumes "team_a m \<in> fst ` set d" "team_b m \<notin> fst ` set d"
  shows "tally_match m d = Inl (KeyError (team_b m))"
proof -
  from assms(1) obtain v where v: "map_of d (team_a m) = Some v"
    by (metis domD dom_map_of_conv_image_fst)
  from assms have ne: "team_b m \<noteq> team_a m" by metis
  from assms(2) have "map_of d (team_b m) = None" by (simp add: map_of_eq_None_iff)
  with v ne show ?thesis
    by (simp add: tally_match_def stmts_def Let_def update_conv')
qed

lemma tally_loop_closed:
  "distinct (map fst d) \<Longrightarrow> \<forall>m\<in>set ms. team_a m \<in> fst ` set d \<and> team_b m \<in> fst ` set d \<Longrightarrow>
   tally_loop ms d = Inr (map (\<lambda>p. (fst p, fold (\<lambda>m. credit m (fst p)) ms (snd p))) d)"
proof (induction ms arbitrary: d)
  case Nil
  then show ?case by simp
next
  case (Cons m ms)
  let ?d = "map (\<lambda>p. (fst p, credit m (fst p) (snd p))) d"
  have step: "tally_match m d = Inr ?d"
    using Cons.prems by (simp add: tally_match_closed)
  have keys: "map fst ?d = map fst d" by (simp add: comp_def)
  have "tally_loop ms ?d = Inr (map (\<lambda>p. (fst p, fold (\<lambda>m. credit m (fst p)) ms (snd p))) ?d)"
  proof (rule Cons.IH)
    show "distinct (map fst ?d)" unfolding keys by (rule Cons.prems(1))
    have "fst ` set ?d = fst ` set d" using keys by (metis list.set_map)
    then show "\<forall>m\<in>set ms. team_a m \<in> fst ` set ?d \<and> team_b m \<in> fst ` set ?d"
      using Cons.prems(2) by simp
  qed
  then show ?case by (simp add: step comp_def)
qed

lemma tally_loop_unknown:
  "distinct (map fst d) \<Longrightarrow> \<exists>m\<in>set ms. team_a m \<notin> fst ` set d \<or> team_b m \<notin> fst ` set d \<Longrightarrow>
   \<exists>k. k \<notin> fst ` set d \<and> k \<in> team_a ` set ms \<union> team_b ` set ms \<and> tally_loop ms d = Inl (KeyError k)"
proof (induction ms arbitrary: d)
  case Nil
  then show ?case by simp
next
  case (Cons m ms)
  show ?case
  proof (cases "team_a m \<in> fst ` set d")
    case False
    then have "tally_loop (m # ms) d = Inl (KeyError (team_a m))"
      by (simp add: tally_match_unknown_a)
    with False show ?thesis by (intro exI [of _ "team_a m"]) simp
  next
    case a: True
    show ?thesis
    proof (cases "team_b m \<in> fst ` set d")
      case False
      with a have "tally_loop (m # ms) d = Inl (KeyError (team_b m))"
        by (simp add: tally_match_unknown_b)
      with False show ?thesis by (intro exI [of _ "team_b m"]) simp
    next
      case b: True
      let ?d = "map (\<lambda>p. (fst p, credit m (fst p) (snd p))) d"
      have step: "tally_match m d = Inr ?d"
        using Cons.prems(1) a b by (rule tally_match_closed)
      have keys: "map fst ?d = map fst d" by (simp add: comp_def)
      have ks: "fst ` set ?d = fst ` set d" using keys by (metis list.set_map)
      have "\<exists>k. k \<notin> fst ` set ?d \<and> k \<in> team_a ` set ms \<union> team_b ` set ms \<and> tally_loop ms ?d = Inl (KeyError k)"
      proof (rule Cons.IH)
        show "distinct (map fst ?d)" unfolding keys by (rule Cons.prems(1))
        from Cons.prems(2) a b
        have "\<exists>m\<in>set ms. team_a m \<notin> fst ` set d \<or> team_b m \<notin> fst ` set d" by simp
        then show "\<exists>m\<in>set ms. team_a m \<notin> fst ` set ?d \<or> team_b m \<notin> fst ` set ?d"
          by (simp only: ks)
      qed
      then obtain k where k: "k \<notin> fst ` set d" "k \<in> team_a ` set ms \<union> team_b ` set ms"
        "tally_loop ms ?d = Inl (KeyError k)"
        unfolding ks by blast
      from k(3) have "tally_loop (m # ms) d = Inl (KeyError k)" by (simp add: step)
      with k(1,2) show ?thesis by (intro exI [of _ k]) simp
    qed
  qed
qed

section \<open>The initial dictionary\<close>

lemma fold_update_props:
  fixes d :: data
  assumes "distinct (map fst d)" "snd ` set d \<subseteq> {z}"
  shows "distinct (map fst (fold (\<lambda>team d. AList.update team z d) ts d))
       \<and> fst ` set (fold (\<lambda>team d. AList.update team z d) ts d) = set ts \<union> fst ` set d
       \<and> snd ` set (fold (\<lambda>team d. AList.update team z d) ts d) \<subseteq> {z}"
  using assms
proof (induction ts arbitrary: d)
  case Nil
  then show ?case by simp
next
  case (Cons t ts)
  have 1: "distinct (map fst (AList.update t z d))"
    using Cons.prems(1) by (simp add: distinct_update)
  have "set (AList.update t z d) \<subseteq> insert (t, z) (set d)"
    by (induction d) auto
  with Cons.prems(2) have 2: "snd ` set (AList.update t z d) \<subseteq> {z}" by fastforce
  from Cons.IH [OF 1 2] show ?case by (auto simp: dom_update)
qed

lemma distinct_init_data: "distinct (map fst (init_data ts))"
  using fold_update_props [of "[]" zero_tally ts] by (simp add: init_data_def)

lemma keys_init_data: "fst ` set (init_data ts) = set ts"
  using fold_update_props [of "[]" zero_tally ts] by (simp add: init_data_def)

lemma values_init_data: "p \<in> set (init_data ts) \<Longrightarrow> snd p = zero_tally"
  using fold_update_props [of "[]" zero_tally ts] by (auto simp: init_data_def)

lemma init_data_eq_Nil: "init_data ts = [] \<longleftrightarrow> ts = []"
  using keys_init_data [of ts] by (metis image_is_empty set_empty)

lemma distinct_keys_of: "distinct (keys_of ts)"
  unfolding keys_of_def by (rule distinct_init_data)

lemma set_keys_of: "set (keys_of ts) = set ts"
  unfolding keys_of_def using keys_init_data [of ts] by simp

lemma known_teams_keys_of: "known_teams (keys_of ts) ms \<longleftrightarrow> known_teams ts ms"
  by (simp add: known_teams_def set_keys_of)

lemma known_teams_snoc:
  "known_teams ts (ms @ [m]) \<longleftrightarrow> known_teams ts ms \<and> team_a m \<in> set ts \<and> team_b m \<in> set ts"
  by (auto simp: known_teams_def)

section \<open>The result of the whole function\<close>

lemma tally_loop_init:
  assumes "known_teams ts ms"
  shows "tally_loop ms (init_data ts) = Inr (map (\<lambda>p. (fst p, team_total ms (fst p))) (init_data ts))"
proof -
  have "tally_loop ms (init_data ts)
      = Inr (map (\<lambda>p. (fst p, fold (\<lambda>m. credit m (fst p)) ms (snd p))) (init_data ts))"
    using assms by (intro tally_loop_closed distinct_init_data) (simp add: keys_init_data known_teams_def)
  also have "map (\<lambda>p. (fst p, fold (\<lambda>m. credit m (fst p)) ms (snd p))) (init_data ts)
      = map (\<lambda>p. (fst p, team_total ms (fst p))) (init_data ts)"
    by (rule map_cong) (simp_all add: values_init_data team_total_def)
  finally show ?thesis .
qed

lemma tally_loop_init_unknown:
  assumes "\<not> known_teams ts ms"
  shows "\<exists>k. k \<notin> set ts \<and> k \<in> team_a ` set ms \<union> team_b ` set ms
           \<and> tally_loop ms (init_data ts) = Inl (KeyError k)"
proof -
  from assms have "\<exists>m\<in>set ms. team_a m \<notin> fst ` set (init_data ts) \<or> team_b m \<notin> fst ` set (init_data ts)"
    unfolding keys_init_data known_teams_def by blast
  from tally_loop_unknown [OF distinct_init_data this] show ?thesis
    unfolding keys_init_data .
qed

lemma compute_standings_known:
  assumes "known_teams ts ms"
  shows "compute_standings ms ts =
           (if ts = [] then Inl (KeyError ''PF'') else Inr (sort_values (final_rows ms ts)))"
  by (simp add: compute_standings_def tally_loop_init [OF assms] init_data_eq_Nil final_rows_def)

lemma compute_standings_unknown:
  assumes "\<not> known_teams ts ms"
  shows "\<exists>k. k \<notin> set ts \<and> k \<in> team_a ` set ms \<union> team_b ` set ms
           \<and> compute_standings ms ts = Inl (KeyError k)"
proof -
  from tally_loop_init_unknown [OF assms] obtain k where
    "k \<notin> set ts" "k \<in> team_a ` set ms \<union> team_b ` set ms" "tally_loop ms (init_data ts) = Inl (KeyError k)"
    by blast
  then show ?thesis by (intro exI [of _ k]) (simp add: compute_standings_def)
qed

lemma compute_standings_InrD:
  assumes "compute_standings ms ts = Inr table"
  shows "known_teams ts ms" "ts \<noteq> []" "table = sort_values (final_rows ms ts)"
proof -
  show k: "known_teams ts ms"
    using compute_standings_unknown [of ts ms] assms by auto
  from assms show "ts \<noteq> []" "table = sort_values (final_rows ms ts)"
    unfolding compute_standings_known [OF k] by (simp_all split: if_splits)
qed

lemma compute_standings_returns:
  assumes "known_teams ts ms" "ts \<noteq> []"
  shows "\<exists>table. compute_standings ms ts = Inr table"
  using assms by (simp add: compute_standings_known)

text \<open>The rows before sorting, team by team; only \<open>PD\<close> depends on the column types.\<close>

lemma final_rows_keys:
  "\<exists>tf ta. final_rows ms ts = map (\<lambda>k. to_row tf ta (k, team_total ms k)) (keys_of ts)"
proof -
  let ?d = "map (\<lambda>p. (fst p, team_total ms (fst p))) (init_data ts)"
  let ?tf = "infer_dtype (map (\<lambda>p. PF (snd p)) ?d)"
  let ?ta = "infer_dtype (map (\<lambda>p. PA (snd p)) ?d)"
  have "final_rows ms ts = map (\<lambda>k. to_row ?tf ?ta (k, team_total ms k)) (keys_of ts)"
    by (simp add: final_rows_def build_frame_def keys_of_def comp_def)
  then show ?thesis by blast
qed

lemma to_row_fields:
  "Pld (to_row tf ta (k, v)) = Pld v" "W (to_row tf ta (k, v)) = W v"
  "L (to_row tf ta (k, v)) = L v" "PF (to_row tf ta (k, v)) = PF v"
  "PA (to_row tf ta (k, v)) = PA v" "Pts (to_row tf ta (k, v)) = Pts v"
  "team (to_row tf ta (k, v)) = k"
  "PD (to_row tf ta (k, v)) = column_sub tf ta (PF v) (PA v)"
  by (simp_all add: to_row_def)

section \<open>Sorting\<close>

lemma mset_place_row: "mset (place_row r rows) = add_mset r (mset rows)"
  by (induction rows) simp_all

lemma mset_sort_values: "mset (sort_values rows) = mset rows"
  by (induction rows) (simp_all add: sort_values_def mset_place_row)

lemma set_place_row: "set (place_row r rows) = insert r (set rows)"
  using mset_place_row [of r rows] by (metis set_mset_add_mset_insert set_mset_mset)

lemma ranks_before_total: "\<not> ranks_before r s \<Longrightarrow> ranks_before s r"
  by (auto simp: ranks_before_def)

lemma ranks_before_trans: "ranks_before r s \<Longrightarrow> ranks_before s t \<Longrightarrow> ranks_before r t"
  by (auto simp: ranks_before_def)

lemma sorted_place_row:
  "sorted_wrt ranks_before rows \<Longrightarrow> sorted_wrt ranks_before (place_row r rows)"
proof (induction rows)
  case Nil
  then show ?case by simp
next
  case (Cons s rows)
  show ?case
  proof (cases "ranks_before r s")
    case True
    with Cons.prems show ?thesis by (auto intro: ranks_before_trans)
  next
    case False
    then have "ranks_before s r" by (rule ranks_before_total)
    with False Cons show ?thesis by (auto simp: set_place_row)
  qed
qed

lemma sorted_sort_values: "sorted_wrt ranks_before (sort_values rows)"
  by (induction rows) (simp_all add: sort_values_def sorted_place_row)

section \<open>Sums over the teams\<close>

lemma total_snoc: "team_total (ms @ [m]) k = credit m k (team_total ms k)"
  by (simp add: team_total_def)

lemma total_Nil: "team_total [] k = zero_tally"
  by (simp add: team_total_def)

lemma total_played: "W (team_total ms k) + L (team_total ms k) = Pld (team_total ms k)"
proof (induction ms rule: rev_induct)
  case Nil
  then show ?case by (simp add: total_Nil zero_tally_def)
next
  case (snoc m ms)
  then show ?case unfolding total_snoc by (rule credit_played)
qed

lemma total_mset_cong:
  assumes "mset ms' = mset ms"
  shows "team_total ms' k = team_total ms k"
proof -
  have "fold (\<lambda>m. credit m k) ms' = fold (\<lambda>m. credit m k) ms"
    by (rule fold_multiset_equiv) (simp_all add: assms fun_eq_iff credit_commute)
  then show ?thesis by (simp add: team_total_def)
qed

lemma sum_list_indicator:
  "distinct ks \<Longrightarrow> x \<in> set ks \<Longrightarrow> (\<Sum>k\<leftarrow>ks. if k = x then c else 0) = (c::int)"
proof (induction ks)
  case Nil
  then show ?case by simp
next
  case (Cons k ks)
  show ?case
  proof (cases "k = x")
    case True
    with Cons.prems have "x \<notin> set ks" by simp
    then have "(\<Sum>k\<leftarrow>ks. if k = x then c else 0) = 0"
      by (induction ks) auto
    with True show ?thesis by simp
  next
    case False
    with Cons show ?thesis by simp
  qed
qed

lemma sum_W_total:
  assumes "distinct ks" "known_teams ks ms"
  shows "(\<Sum>k\<leftarrow>ks. W (team_total ms k)) = int (length ms)"
  using assms(2)
proof (induction ms rule: rev_induct)
  case Nil
  then show ?case by (simp add: total_Nil zero_tally_def)
next
  case (snoc m ms)
  let ?w = "if score_a m > score_b m then team_a m else team_b m"
  from snoc.prems have known: "known_teams ks ms" and w: "?w \<in> set ks"
    by (simp_all add: known_teams_snoc)
  have "(\<Sum>k\<leftarrow>ks. W (team_total (ms @ [m]) k))
      = (\<Sum>k\<leftarrow>ks. W (team_total ms k) + (if k = ?w then 1 else 0))"
    by (simp add: total_snoc credit_eq)
  also have "\<dots> = (\<Sum>k\<leftarrow>ks. W (team_total ms k)) + (\<Sum>k\<leftarrow>ks. if k = ?w then 1 else 0)"
    by (rule sum_list_addf)
  also have "\<dots> = int (length ms) + 1"
    using snoc.IH [OF known] sum_list_indicator [OF assms(1) w, of 1] by simp
  finally show ?case by simp
qed

lemma sum_PF_total:
  assumes "distinct ks" "known_teams ks ms"
  shows "(\<Sum>k\<leftarrow>ks. PF (team_total ms k)) = (\<Sum>m\<leftarrow>ms. score_a m + score_b m)"
  using assms(2)
proof (induction ms rule: rev_induct)
  case Nil
  then show ?case by (simp add: total_Nil zero_tally_def)
next
  case (snoc m ms)
  from snoc.prems have known: "known_teams ks ms"
    and a: "team_a m \<in> set ks" and b: "team_b m \<in> set ks"
    by (simp_all add: known_teams_snoc)
  have "(\<Sum>k\<leftarrow>ks. PF (team_total (ms @ [m]) k))
      = (\<Sum>k\<leftarrow>ks. (PF (team_total ms k) + (if k = team_a m then score_a m else 0))
                   + (if k = team_b m then score_b m else 0))"
    by (simp add: total_snoc credit_eq)
  also have "\<dots> = (\<Sum>k\<leftarrow>ks. PF (team_total ms k)) + (\<Sum>k\<leftarrow>ks. if k = team_a m then score_a m else 0)
                 + (\<Sum>k\<leftarrow>ks. if k = team_b m then score_b m else 0)"
    by (simp only: sum_list_addf)
  also have "\<dots> = (\<Sum>m\<leftarrow>ms. score_a m + score_b m) + score_a m + score_b m"
    using snoc.IH [OF known] sum_list_indicator [OF assms(1) a] sum_list_indicator [OF assms(1) b]
    by simp
  finally show ?case by simp
qed

lemma sum_PA_total:
  assumes "distinct ks" "known_teams ks ms"
  shows "(\<Sum>k\<leftarrow>ks. PA (team_total ms k)) = (\<Sum>m\<leftarrow>ms. score_a m + score_b m)"
  using assms(2)
proof (induction ms rule: rev_induct)
  case Nil
  then show ?case by (simp add: total_Nil zero_tally_def)
next
  case (snoc m ms)
  from snoc.prems have known: "known_teams ks ms"
    and a: "team_a m \<in> set ks" and b: "team_b m \<in> set ks"
    by (simp_all add: known_teams_snoc)
  have "(\<Sum>k\<leftarrow>ks. PA (team_total (ms @ [m]) k))
      = (\<Sum>k\<leftarrow>ks. (PA (team_total ms k) + (if k = team_a m then score_b m else 0))
                   + (if k = team_b m then score_a m else 0))"
    by (simp add: total_snoc credit_eq)
  also have "\<dots> = (\<Sum>k\<leftarrow>ks. PA (team_total ms k)) + (\<Sum>k\<leftarrow>ks. if k = team_a m then score_b m else 0)
                 + (\<Sum>k\<leftarrow>ks. if k = team_b m then score_a m else 0)"
    by (simp only: sum_list_addf)
  also have "\<dots> = (\<Sum>m\<leftarrow>ms. score_a m + score_b m) + score_b m + score_a m"
    using snoc.IH [OF known] sum_list_indicator [OF assms(1) a] sum_list_indicator [OF assms(1) b]
    by simp
  finally show ?case by simp
qed

lemma sum_list_map_mset_cong:
  fixes f :: "'a \<Rightarrow> int"
  assumes "mset xs = mset ys"
  shows "sum_list (map f xs) = sum_list (map f ys)"
proof -
  have "sum_list (map f xs) = sum_mset (image_mset f (mset xs))"
    by (metis mset_map sum_mset_sum_list)
  also have "\<dots> = sum_mset (image_mset f (mset ys))" by (simp only: assms)
  also have "\<dots> = sum_list (map f ys)" by (metis mset_map sum_mset_sum_list)
  finally show ?thesis .
qed

lemma table_sum:
  fixes f :: "standing \<Rightarrow> int"
  assumes "compute_standings ms ts = Inr table"
    and "\<And>tf ta k v. f (to_row tf ta (k, v)) = g v"
  shows "sum_list (map f table) = (\<Sum>k\<leftarrow>keys_of ts. g (team_total ms k))"
proof -
  from compute_standings_InrD(3) [OF assms(1)]
  have "mset table = mset (final_rows ms ts)" by (simp add: mset_sort_values)
  then have "sum_list (map f table) = sum_list (map f (final_rows ms ts))"
    by (rule sum_list_map_mset_cong)
  moreover obtain tf ta where
    "final_rows ms ts = map (\<lambda>k. to_row tf ta (k, team_total ms k)) (keys_of ts)"
    using final_rows_keys by blast
  ultimately show ?thesis by (simp add: comp_def assms(2))
qed

lemma table_set:
  assumes "compute_standings ms ts = Inr table"
  shows "\<exists>tf ta. set table = (\<lambda>k. to_row tf ta (k, team_total ms k)) ` set ts"
proof -
  from compute_standings_InrD(3) [OF assms]
  have "mset table = mset (final_rows ms ts)" by (simp add: mset_sort_values)
  then have "set table = set (final_rows ms ts)" by (rule mset_eq_setD)
  moreover obtain tf ta where
    "final_rows ms ts = map (\<lambda>k. to_row tf ta (k, team_total ms k)) (keys_of ts)"
    using final_rows_keys by blast
  ultimately have "set table = (\<lambda>k. to_row tf ta (k, team_total ms k)) ` set ts"
    by (simp add: set_keys_of)
  then show ?thesis by blast
qed

text \<open>Each row of a returned table holds the tally of its team, and each team has a row.\<close>

lemma table_row:
  assumes "compute_standings ms ts = Inr table" and "r \<in> set table"
  shows "team r \<in> set ts" "Pld r = Pld (team_total ms (team r))"
    "W r = W (team_total ms (team r))" "L r = L (team_total ms (team r))"
    "PF r = PF (team_total ms (team r))" "PA r = PA (team_total ms (team r))"
    "Pts r = Pts (team_total ms (team r))"
proof -
  from table_set [OF assms(1)] assms(2) obtain tf ta k where
    "k \<in> set ts" "r = to_row tf ta (k, team_total ms k)"
    by blast
  then show "team r \<in> set ts" "Pld r = Pld (team_total ms (team r))"
    "W r = W (team_total ms (team r))" "L r = L (team_total ms (team r))"
    "PF r = PF (team_total ms (team r))" "PA r = PA (team_total ms (team r))"
    "Pts r = Pts (team_total ms (team r))"
    by (simp_all add: to_row_fields)
qed

lemma table_row_of:
  assumes "compute_standings ms ts = Inr table" and "k \<in> set ts"
  shows "\<exists>r\<in>set table. team r = k"
proof -
  from table_set [OF assms(1)] assms(2) obtain tf ta where
    "to_row tf ta (k, team_total ms k) \<in> set table"
    by blast
  then show ?thesis by (rule rev_bexI) (simp add: to_row_fields)
qed

text \<open>The tallies in closed form.\<close>

lemma total_W:
  "W (team_total ms k)
     = int (length (filter (\<lambda>m. k = (if score_a m > score_b m then team_a m else team_b m)) ms))"
  by (induction ms rule: rev_induct) (simp_all add: total_Nil total_snoc credit_eq zero_tally_def)

lemma total_L:
  "L (team_total ms k)
     = int (length (filter (\<lambda>m. k = (if score_a m > score_b m then team_b m else team_a m)) ms))"
  by (induction ms rule: rev_induct) (simp_all add: total_Nil total_snoc credit_eq zero_tally_def)

lemma total_Pts: "Pts (team_total ms k) = 2 * W (team_total ms k)"
  by (induction ms rule: rev_induct) (simp_all add: total_Nil total_snoc credit_eq zero_tally_def)

lemma total_PF:
  "PF (team_total ms k)
     = (\<Sum>m\<leftarrow>ms. (if team_a m = k then score_a m else 0) + (if team_b m = k then score_b m else 0))"
  by (induction ms rule: rev_induct) (simp_all add: total_Nil total_snoc credit_eq zero_tally_def)

lemma total_PA:
  "PA (team_total ms k)
     = (\<Sum>m\<leftarrow>ms. (if team_a m = k then score_b m else 0) + (if team_b m = k then score_a m else 0))"
  by (induction ms rule: rev_induct) (simp_all add: total_Nil total_snoc credit_eq zero_tally_def)

lemma total_remove1:
  assumes "m \<in> set ms"
  shows "team_total ms k = credit m k (team_total (remove1 m ms) k)"
proof -
  from assms have "mset ms = mset (remove1 m ms @ [m])" by simp
  then have "team_total ms k = team_total (remove1 m ms @ [m]) k"
    by (rule total_mset_cong)
  then show ?thesis by (simp only: total_snoc)
qed

lemma known_teams_remove1: "known_teams ts ms \<Longrightarrow> known_teams ts (remove1 m ms)"
  unfolding known_teams_def using set_remove1_subset [of m ms] by blast

text \<open>The column \<open>PD\<close> of a returned table, from the columns \<open>PF\<close> and \<open>PA\<close> of the table.\<close>

lemma infer_dtype_cong: "set xs = set ys \<Longrightarrow> infer_dtype xs = infer_dtype ys"
  by (simp add: infer_dtype_def list_ex_iff)

lemma build_frame_PD:
  assumes "r \<in> set (build_frame d)"
  shows "PD r = column_sub (infer_dtype (map PF (build_frame d)))
                  (infer_dtype (map PA (build_frame d))) (PF r) (PA r)"
proof -
  have pf: "map PF (build_frame d) = map (\<lambda>p. PF (snd p)) d"
    by (simp add: build_frame_def comp_def to_row_def split_def)
  have pa: "map PA (build_frame d) = map (\<lambda>p. PA (snd p)) d"
    by (simp add: build_frame_def comp_def to_row_def split_def)
  from assms show ?thesis
    unfolding pf pa by (auto simp: build_frame_def to_row_def)
qed

lemma table_PD:
  assumes "compute_standings ms ts = Inr table" and "r \<in> set table"
  shows "PD r = column_sub (infer_dtype (map PF table)) (infer_dtype (map PA table)) (PF r) (PA r)"
proof -
  let ?rows = "final_rows ms ts"
  from compute_standings_InrD(3) [OF assms(1)]
  have "mset table = mset ?rows" by (simp add: mset_sort_values)
  then have eq: "set table = set ?rows" by (rule mset_eq_setD)
  then have "infer_dtype (map PF table) = infer_dtype (map PF ?rows)"
    "infer_dtype (map PA table) = infer_dtype (map PA ?rows)"
    by (simp_all add: infer_dtype_cong)
  moreover from assms(2) eq have "r \<in> set ?rows" by simp
  ultimately show ?thesis
    unfolding final_rows_def by (simp add: build_frame_PD)
qed

lemma infer_dtype_Int64:
  "\<forall>x\<in>set xs. INT64_MIN \<le> x \<and> x \<le> INT64_MAX \<Longrightarrow> infer_dtype xs = Int64"
  by (auto simp: infer_dtype_def list_ex_iff INT64_MIN_def INT64_MAX_def UINT64_MAX_def)

lemma wrap_int64_id: "INT64_MIN \<le> n \<Longrightarrow> n \<le> INT64_MAX \<Longrightarrow> wrap_int64 n = n"
  by (simp add: wrap_int64_def INT64_MIN_def INT64_MAX_def)

section \<open>The claims\<close>

subsection \<open>Winner determination\<close>

text \<open>
  Claim C1. In every table that \<open>compute_standings\<close> returns, each row counts the matches
  as the loop credits them: a match with \<open>score_a m > score_b m\<close> is one win for
  \<open>team_a m\<close> and one loss for \<open>team_b m\<close>; every other match, the draw
  \<open>score_a m = score_b m\<close> included, is one win for \<open>team_b m\<close> and one loss for
  \<open>team_a m\<close>. A row's \<open>W\<close> is the number of matches its team wins in this sense, its
  \<open>L\<close> the number it loses, and its \<open>Pts\<close> is two for each win.
\<close>

theorem winner_credited:
  assumes "compute_standings ms ts = Inr table" and "r \<in> set table"
  shows "W r = int (length (filter
                  (\<lambda>m. team r = (if score_a m > score_b m then team_a m else team_b m)) ms)) \<and>
         L r = int (length (filter
                  (\<lambda>m. team r = (if score_a m > score_b m then team_b m else team_a m)) ms)) \<and>
         Pts r = 2 * W r"
  using table_row(3,4,7) [OF assms] total_W [of ms "team r"] total_L [of ms "team r"]
    total_Pts [of ms "team r"]
  by simp

text \<open>A single drawn match X - Y, 5 to 5: the win and the two points go to Y.\<close>

theorem winner_credited_witness:
  "compute_standings [game ''X'' ''Y'' 5 5] [''X'', ''Y'']
     = Inr [row ''Y'' 1 1 0 5 5 0 2, row ''X'' 1 0 1 5 5 0 0] \<and>
   row ''Y'' 1 1 0 5 5 0 2 \<in> set [row ''Y'' 1 1 0 5 5 0 2, row ''X'' 1 0 1 5 5 0 0] \<and>
   W (row ''Y'' 1 1 0 5 5 0 2) = 1 \<and> L (row ''Y'' 1 1 0 5 5 0 2) = 0 \<and>
   Pts (row ''Y'' 1 1 0 5 5 0 2) = 2 \<and>
   int (length (filter
      (\<lambda>m. team (row ''Y'' 1 1 0 5 5 0 2) = (if score_a m > score_b m then team_a m else team_b m))
      [game ''X'' ''Y'' 5 5])) = 1"
proof -
  have h: "compute_standings [game ''X'' ''Y'' 5 5] [''X'', ''Y'']
     = Inr [row ''Y'' 1 1 0 5 5 0 2, row ''X'' 1 0 1 5 5 0 0]"
    by code_simp
  have m: "row ''Y'' 1 1 0 5 5 0 2 \<in> set [row ''Y'' 1 1 0 5 5 0 2, row ''X'' 1 0 1 5 5 0 0]"
    by simp
  from winner_credited [OF h m] h m show ?thesis by simp
qed

subsection \<open>Ranking\<close>

text \<open>
  Claim C2. The returned table is sorted descending by \<open>(Pts, PD)\<close>: of two adjacent
  rows, the earlier one has strictly more points, or the same points and a point
  differential at least as large. Teams level on points are therefore ordered by point
  differential, highest first.
\<close>

theorem ranked_descending:
  assumes "compute_standings ms ts = Inr table" and "Suc i < length table"
  shows "Pts (table ! Suc i) < Pts (table ! i)
         \<or> (Pts (table ! i) = Pts (table ! Suc i) \<and> PD (table ! Suc i) \<le> PD (table ! i))"
proof -
  have "sorted_wrt ranks_before table"
    unfolding compute_standings_InrD(3) [OF assms(1)] by (rule sorted_sort_values)
  with assms(2) have "ranks_before (table ! i) (table ! Suc i)"
    by (simp add: sorted_wrt_iff_nth_less)
  then show ?thesis by (simp add: ranks_before_def)
qed

text \<open>
  The tie-break test of the source, with the teams listed in reverse: all three teams have
  two points, and the table comes out as A (+4), B (+2), C (-6).
\<close>

theorem ranked_descending_witness:
  "compute_standings tiebreak_matches [''C'', ''B'', ''A'']
     = Inr [row ''A'' 2 1 1 20 16 4 2, row ''B'' 2 1 1 16 14 2 2, row ''C'' 2 1 1 14 20 (- 6) 2] \<and>
   Suc 0 < length [row ''A'' 2 1 1 20 16 4 2, row ''B'' 2 1 1 16 14 2 2, row ''C'' 2 1 1 14 20 (- 6) 2] \<and>
   (Pts ([row ''A'' 2 1 1 20 16 4 2, row ''B'' 2 1 1 16 14 2 2, row ''C'' 2 1 1 14 20 (- 6) 2] ! Suc 0)
      < Pts ([row ''A'' 2 1 1 20 16 4 2, row ''B'' 2 1 1 16 14 2 2, row ''C'' 2 1 1 14 20 (- 6) 2] ! 0)
    \<or> (Pts ([row ''A'' 2 1 1 20 16 4 2, row ''B'' 2 1 1 16 14 2 2, row ''C'' 2 1 1 14 20 (- 6) 2] ! 0)
         = Pts ([row ''A'' 2 1 1 20 16 4 2, row ''B'' 2 1 1 16 14 2 2, row ''C'' 2 1 1 14 20 (- 6) 2] ! Suc 0)
       \<and> PD ([row ''A'' 2 1 1 20 16 4 2, row ''B'' 2 1 1 16 14 2 2, row ''C'' 2 1 1 14 20 (- 6) 2] ! Suc 0)
         \<le> PD ([row ''A'' 2 1 1 20 16 4 2, row ''B'' 2 1 1 16 14 2 2, row ''C'' 2 1 1 14 20 (- 6) 2] ! 0)))"
proof -
  have h: "compute_standings tiebreak_matches [''C'', ''B'', ''A'']
     = Inr [row ''A'' 2 1 1 20 16 4 2, row ''B'' 2 1 1 16 14 2 2, row ''C'' 2 1 1 14 20 (- 6) 2]"
    by code_simp
  have l: "Suc 0 < length [row ''A'' 2 1 1 20 16 4 2, row ''B'' 2 1 1 16 14 2 2, row ''C'' 2 1 1 14 20 (- 6) 2]"
    by simp
  from h l ranked_descending [OF h l] show ?thesis by (intro conjI)
qed

subsection \<open>Unknown teams\<close>

text \<open>
  Claim C3 as it is written asks for a \<open>ReferenceError\<close> raised by an explicit check.
  The function has no such check: a match naming the unknown team \<open>Q\<close> fails in the
  dictionary lookup \<^verbatim>\<open>data[b]\<close> with \<^verbatim>\<open>KeyError('Q')\<close>.
\<close>

theorem unknown_team_counterexample:
  "compute_standings [game ''X'' ''Q'' 1 0] [''X''] = Inl (KeyError ''Q'') \<and>
   compute_standings [game ''X'' ''Q'' 1 0] [''X''] \<noteq> Inl ReferenceError"
  by (simp add: compute_standings_def init_data_def tally_match_def stmts_def zero_tally_def Let_def)

text \<open>
  Claim C3, amended. For every match list containing a match whose \<open>team_a\<close> or
  \<open>team_b\<close> is absent from the team list, \<open>compute_standings\<close> fails with the
  \<^verbatim>\<open>KeyError\<close> of the accumulator lookup, naming a team of the match list that is
  absent from the team list, and returns no table.
\<close>

theorem unknown_team_key_error:
  assumes "m \<in> set ms" and "team_a m \<notin> set ts \<or> team_b m \<notin> set ts"
  shows "\<exists>k. k \<notin> set ts \<and> k \<in> team_a ` set ms \<union> team_b ` set ms
           \<and> compute_standings ms ts = Inl (KeyError k)"
proof (rule compute_standings_unknown)
  from assms show "\<not> known_teams ts ms" unfolding known_teams_def by blast
qed

theorem unknown_team_key_error_witness:
  "game ''Q'' ''X'' 3 11 \<in> set [game ''X'' ''Y'' 11 5, game ''Q'' ''X'' 3 11] \<and>
   team_a (game ''Q'' ''X'' 3 11) \<notin> set [''X'', ''Y''] \<and>
   (\<exists>k. k \<notin> set [''X'', ''Y''] \<and>
        k \<in> team_a ` set [game ''X'' ''Y'' 11 5, game ''Q'' ''X'' 3 11]
           \<union> team_b ` set [game ''X'' ''Y'' 11 5, game ''Q'' ''X'' 3 11] \<and>
        compute_standings [game ''X'' ''Y'' 11 5, game ''Q'' ''X'' 3 11] [''X'', ''Y'']
          = Inl (KeyError k))"
proof -
  have h1: "game ''Q'' ''X'' 3 11 \<in> set [game ''X'' ''Y'' 11 5, game ''Q'' ''X'' 3 11]"
    by simp
  have h2: "team_a (game ''Q'' ''X'' 3 11) \<notin> set [''X'', ''Y'']"
    by simp
  from h1 h2 unknown_team_key_error [OF h1 disjI1 [OF h2]] show ?thesis by (intro conjI)
qed

subsection \<open>An empty team list\<close>

text \<open>
  Claim C4 says that an empty team list gives an empty table and no error. On the
  empty team list with no matches the function raises instead: the frame built from the
  empty dictionary has no columns, and line 25 looks the column \<^verbatim>\<open>PF\<close> up.
\<close>

theorem empty_teams_raise:
  "compute_standings [] [] = Inl (KeyError ''PF'')"
  by (simp add: compute_standings_def init_data_def)

subsection \<open>Conservation\<close>

text \<open>
  Claim C5. In every table that \<open>compute_standings\<close> returns, each row has
  \<open>W + L = Pld\<close>, and the wins of all rows add up to the number of matches.
  A table is returned exactly when the team list is not empty and every match names
  teams of the list (\<open>compute_standings_InrD\<close>, \<open>compute_standings_returns\<close>).
\<close>

theorem conservation:
  assumes "compute_standings ms ts = Inr table"
  shows "(\<forall>r\<in>set table. W r + L r = Pld r) \<and> sum_list (map W table) = int (length ms)"
proof
  show "\<forall>r\<in>set table. W r + L r = Pld r"
    using table_row(2,3,4) [OF assms] by (simp add: total_played)
  from compute_standings_InrD(1) [OF assms] have "known_teams (keys_of ts) ms"
    by (simp only: known_teams_keys_of)
  from sum_W_total [OF distinct_keys_of this]
  show "sum_list (map W table) = int (length ms)"
    by (simp add: table_sum [OF assms, where g = W] to_row_fields)
qed

theorem conservation_witness:
  "compute_standings basic_matches [''X'', ''Y'', ''Z'']
     = Inr [row ''X'' 2 2 0 22 8 14 4, row ''Z'' 2 1 1 14 18 (- 4) 2, row ''Y'' 2 0 2 12 22 (- 10) 0] \<and>
   list_all (\<lambda>r. W r + L r = Pld r)
     [row ''X'' 2 2 0 22 8 14 4, row ''Z'' 2 1 1 14 18 (- 4) 2, row ''Y'' 2 0 2 12 22 (- 10) 0] \<and>
   sum_list (map W [row ''X'' 2 2 0 22 8 14 4, row ''Z'' 2 1 1 14 18 (- 4) 2, row ''Y'' 2 0 2 12 22 (- 10) 0])
     = int (length basic_matches)"
proof -
  have h: "compute_standings basic_matches [''X'', ''Y'', ''Z'']
     = Inr [row ''X'' 2 2 0 22 8 14 4, row ''Z'' 2 1 1 14 18 (- 4) 2, row ''Y'' 2 0 2 12 22 (- 10) 0]"
    by code_simp
  from conservation [OF h]
  have "list_all (\<lambda>r. W r + L r = Pld r)
     [row ''X'' 2 2 0 22 8 14 4, row ''Z'' 2 1 1 14 18 (- 4) 2, row ''Y'' 2 0 2 12 22 (- 10) 0]"
    and "sum_list (map W [row ''X'' 2 2 0 22 8 14 4, row ''Z'' 2 1 1 14 18 (- 4) 2, row ''Y'' 2 0 2 12 22 (- 10) 0])
     = int (length basic_matches)"
    unfolding list_all_iff by (rule conjunct1, rule conjunct2)
  with h show ?thesis by (intro conjI)
qed

subsection \<open>Match order\<close>

text \<open>
  Claim C6. For every team list and every match list naming only teams of the list,
  any permutation of the match list gives the same result; in particular the two tables
  hold the same multiset of rows.
\<close>

theorem match_order_irrelevant:
  assumes "mset ms' = mset ms" and "known_teams ts ms"
  shows "compute_standings ms' ts = compute_standings ms ts
         \<and> (\<forall>t t'. compute_standings ms ts = Inr t \<and> compute_standings ms' ts = Inr t'
                \<longrightarrow> mset t' = mset t)"
proof -
  from assms(1) have "set ms' = set ms" by (rule mset_eq_setD)
  with assms(2) have known': "known_teams ts ms'" by (simp add: known_teams_def)
  have "final_rows ms' ts = final_rows ms ts"
    by (simp add: final_rows_def total_mset_cong [OF assms(1)])
  then have "compute_standings ms' ts = compute_standings ms ts"
    by (simp add: compute_standings_known [OF known'] compute_standings_known [OF assms(2)])
  then show ?thesis by auto
qed

theorem match_order_irrelevant_witness:
  "mset (rev tiebreak_matches) = mset tiebreak_matches \<and>
   known_teams [''A'', ''B'', ''C''] tiebreak_matches \<and>
   compute_standings (rev tiebreak_matches) [''A'', ''B'', ''C'']
     = compute_standings tiebreak_matches [''A'', ''B'', ''C'']"
proof -
  have h1: "mset (rev tiebreak_matches) = mset tiebreak_matches" by simp
  have h2: "known_teams [''A'', ''B'', ''C''] tiebreak_matches"
    by (simp add: known_teams_def tiebreak_matches_def)
  from h1 h2 conjunct1 [OF match_order_irrelevant [OF h1 h2]] show ?thesis by (intro conjI)
qed

subsection \<open>Negative scores\<close>

text \<open>
  Claim C7 as it is written asks for a \<open>ValidationError\<close> on a negative score. The
  function does not look at the sign of a score: the match X - Y with scores -1 and 5 is
  tallied like any other.
\<close>

theorem negative_score_counterexample:
  "compute_standings [game ''X'' ''Y'' (- 1) 5] [''X'', ''Y'']
     = Inr [row ''Y'' 1 1 0 5 (- 1) 6 2, row ''X'' 1 0 1 (- 1) 5 (- 6) 0]"
  by code_simp

text \<open>
  Claim C7, amended. Scores are not validated: a match list that contains a match with
  a negative score and names only teams of the team list makes \<open>compute_standings\<close>
  return a standings table, not an error, and the scores are tallied as they are given,
  negative ones included: in every row, \<open>PF\<close> is the sum of the scores the row's team
  made over all matches and \<open>PA\<close> the sum of the scores made against it.
\<close>

theorem negative_score_tallied:
  assumes "m \<in> set ms" and "score_a m < 0 \<or> score_b m < 0"
    and "known_teams ts ms"
  shows "\<exists>table. compute_standings ms ts = Inr table \<and>
           (\<forall>r\<in>set table.
              PF r = (\<Sum>m\<leftarrow>ms. (if team_a m = team r then score_a m else 0)
                              + (if team_b m = team r then score_b m else 0)) \<and>
              PA r = (\<Sum>m\<leftarrow>ms. (if team_a m = team r then score_b m else 0)
                              + (if team_b m = team r then score_a m else 0)))"
proof -
  from assms(1,3) have "team_a m \<in> set ts" by (simp add: known_teams_def)
  then have "ts \<noteq> []" by auto
  from compute_standings_returns [OF assms(3) this] obtain table where
    t: "compute_standings ms ts = Inr table" by blast
  have "\<forall>r\<in>set table.
          PF r = (\<Sum>m\<leftarrow>ms. (if team_a m = team r then score_a m else 0)
                          + (if team_b m = team r then score_b m else 0)) \<and>
          PA r = (\<Sum>m\<leftarrow>ms. (if team_a m = team r then score_b m else 0)
                          + (if team_b m = team r then score_a m else 0))"
    using table_row(5,6) [OF t] by (simp add: total_PF total_PA)
  with t show ?thesis by blast
qed

theorem negative_score_tallied_witness:
  "game ''A'' ''B'' 11 (- 3) \<in> set [game ''A'' ''B'' 11 (- 3)] \<and>
   (score_a (game ''A'' ''B'' 11 (- 3)) < 0 \<or> score_b (game ''A'' ''B'' 11 (- 3)) < 0) \<and>
   known_teams [''A'', ''B''] [game ''A'' ''B'' 11 (- 3)] \<and>
   (\<exists>table. compute_standings [game ''A'' ''B'' 11 (- 3)] [''A'', ''B''] = Inr table \<and>
      (\<forall>r\<in>set table.
         PF r = (\<Sum>m\<leftarrow>[game ''A'' ''B'' 11 (- 3)].
                   (if team_a m = team r then score_a m else 0)
                 + (if team_b m = team r then score_b m else 0)) \<and>
         PA r = (\<Sum>m\<leftarrow>[game ''A'' ''B'' 11 (- 3)].
                   (if team_a m = team r then score_b m else 0)
                 + (if team_b m = team r then score_a m else 0))))"
proof -
  have h1: "game ''A'' ''B'' 11 (- 3) \<in> set [game ''A'' ''B'' 11 (- 3)]" by simp
  have h2: "score_a (game ''A'' ''B'' 11 (- 3)) < 0 \<or> score_b (game ''A'' ''B'' 11 (- 3)) < 0"
    by simp
  have h3: "known_teams [''A'', ''B''] [game ''A'' ''B'' 11 (- 3)]"
    by (simp add: known_teams_def)
  from h1 h2 h3 negative_score_tallied [OF h1 h2 h3] show ?thesis by (intro conjI)
qed

subsection \<open>Self-play\<close>

text \<open>
  Claim C8 as it is written asks for a \<open>ValidationError\<close> when a team plays itself.
  The function does not compare the two teams: the match X - X is tallied twice on the
  same row, as one win and one loss.
\<close>

theorem self_play_counterexample:
  "compute_standings [game ''X'' ''X'' 1 0] [''X''] = Inr [row ''X'' 2 1 1 1 1 0 2]"
  by code_simp

text \<open>
  Claim C8, amended. Self-play is not rejected: a match list that contains a match \<open>m\<close>
  with \<open>team_a m = team_b m\<close> and names only teams of the team list makes
  \<open>compute_standings\<close> return a standings table, not an error, and the match is tallied on
  the row of its one team as two games played, one win and one loss: compared with the
  table for the same list without \<open>m\<close>, that row has \<open>Pld\<close> larger by 2, \<open>W\<close> and
  \<open>L\<close> larger by 1 and \<open>Pts\<close> larger by 2.
\<close>

theorem self_play_tallied:
  assumes "m \<in> set ms" and "team_a m = team_b m"
    and "known_teams ts ms"
  shows "\<exists>table table0 r r0.
           compute_standings ms ts = Inr table \<and>
           compute_standings (remove1 m ms) ts = Inr table0 \<and>
           r \<in> set table \<and> r0 \<in> set table0 \<and>
           team r = team_a m \<and> team r0 = team_a m \<and>
           Pld r = Pld r0 + 2 \<and> W r = W r0 + 1 \<and> L r = L r0 + 1 \<and> Pts r = Pts r0 + 2"
proof -
  let ?k = "team_a m"
  from assms(1,3) have k: "?k \<in> set ts" by (simp add: known_teams_def)
  then have ne: "ts \<noteq> []" by auto
  from compute_standings_returns [OF assms(3) ne] obtain table where
    t: "compute_standings ms ts = Inr table" by blast
  from compute_standings_returns [OF known_teams_remove1 [OF assms(3)] ne] obtain table0 where
    t0: "compute_standings (remove1 m ms) ts = Inr table0" by blast
  from table_row_of [OF t k] obtain r where r: "r \<in> set table" "team r = ?k" by blast
  from table_row_of [OF t0 k] obtain r0 where r0: "r0 \<in> set table0" "team r0 = ?k" by blast
  have step: "team_total ms ?k = credit m ?k (team_total (remove1 m ms) ?k)"
    using assms(1) by (rule total_remove1)
  have delta: "Pld (team_total ms ?k) = Pld (team_total (remove1 m ms) ?k) + 2"
    "W (team_total ms ?k) = W (team_total (remove1 m ms) ?k) + 1"
    "L (team_total ms ?k) = L (team_total (remove1 m ms) ?k) + 1"
    "Pts (team_total ms ?k) = Pts (team_total (remove1 m ms) ?k) + 2"
    unfolding step by (simp_all add: credit_eq assms(2) [symmetric])
  have "Pld r = Pld r0 + 2 \<and> W r = W r0 + 1 \<and> L r = L r0 + 1 \<and> Pts r = Pts r0 + 2"
    using table_row(2,3,4,7) [OF t r(1)] table_row(2,3,4,7) [OF t0 r0(1)]
    unfolding r(2) r0(2) delta by simp
  with t t0 r r0 show ?thesis by blast
qed

theorem self_play_tallied_witness:
  "game ''A'' ''A'' 11 3 \<in> set [game ''A'' ''B'' 5 11, game ''A'' ''A'' 11 3] \<and>
   team_a (game ''A'' ''A'' 11 3) = team_b (game ''A'' ''A'' 11 3) \<and>
   known_teams [''A'', ''B''] [game ''A'' ''B'' 5 11, game ''A'' ''A'' 11 3] \<and>
   (\<exists>table table0 r r0.
      compute_standings [game ''A'' ''B'' 5 11, game ''A'' ''A'' 11 3] [''A'', ''B''] = Inr table \<and>
      compute_standings (remove1 (game ''A'' ''A'' 11 3) [game ''A'' ''B'' 5 11, game ''A'' ''A'' 11 3])
        [''A'', ''B''] = Inr table0 \<and>
      r \<in> set table \<and> r0 \<in> set table0 \<and>
      team r = team_a (game ''A'' ''A'' 11 3) \<and> team r0 = team_a (game ''A'' ''A'' 11 3) \<and>
      Pld r = Pld r0 + 2 \<and> W r = W r0 + 1 \<and> L r = L r0 + 1 \<and> Pts r = Pts r0 + 2)"
proof -
  have h1: "game ''A'' ''A'' 11 3 \<in> set [game ''A'' ''B'' 5 11, game ''A'' ''A'' 11 3]" by simp
  have h2: "team_a (game ''A'' ''A'' 11 3) = team_b (game ''A'' ''A'' 11 3)" by simp
  have h3: "known_teams [''A'', ''B''] [game ''A'' ''B'' 5 11, game ''A'' ''A'' 11 3]"
    by (simp add: known_teams_def)
  from h1 h2 h3 self_play_tallied [OF h1 h2 h3] show ?thesis by (intro conjI)
qed

subsection \<open>Points for and against\<close>

text \<open>
  Claim C9 as it is written says that the point differentials of a returned table always
  add up to zero. The column \<open>PD\<close> is computed in 64-bit arithmetic: when X beats Y twice
  by \<open>2 ^ 62\<close> to 0, both \<open>PF\<close> and \<open>PA\<close> are unsigned 64-bit columns, the differential
  of Y wraps around, and both rows carry \<open>PD = 2 ^ 63\<close>.
\<close>

theorem points_balance_counterexample:
  "compute_standings [game ''X'' ''Y'' (2 ^ 62) 0, game ''X'' ''Y'' (2 ^ 62) 0] [''X'', ''Y'']
     = Inr [row ''X'' 2 2 0 (2 ^ 63) 0 (2 ^ 63) 4, row ''Y'' 2 0 2 0 (2 ^ 63) (2 ^ 63) 0] \<and>
   sum_list (map PD [row ''X'' 2 2 0 (2 ^ 63) 0 (2 ^ 63) 4, row ''Y'' 2 0 2 0 (2 ^ 63) (2 ^ 63) 0])
     \<noteq> 0"
proof
  show "compute_standings [game ''X'' ''Y'' (2 ^ 62) 0, game ''X'' ''Y'' (2 ^ 62) 0] [''X'', ''Y'']
     = Inr [row ''X'' 2 2 0 (2 ^ 63) 0 (2 ^ 63) 4, row ''Y'' 2 0 2 0 (2 ^ 63) (2 ^ 63) 0]"
    by code_simp
  show "sum_list (map PD [row ''X'' 2 2 0 (2 ^ 63) 0 (2 ^ 63) 4, row ''Y'' 2 0 2 0 (2 ^ 63) (2 ^ 63) 0])
     \<noteq> 0"
    by simp
qed

text \<open>
  Claim C9, amended. In every table that \<open>compute_standings\<close> returns, the column \<open>PF\<close>
  and the column \<open>PA\<close> have the same sum. The point differentials add up to zero when,
  in every row, \<open>PF\<close>, \<open>PA\<close> and \<open>PF - PA\<close> lie in the signed 64-bit range; each
  row then has \<open>PD = PF - PA\<close>.
\<close>

theorem points_balance:
  assumes "compute_standings ms ts = Inr table"
  shows "sum_list (map PF table) = sum_list (map PA table) \<and>
         ((\<forall>r\<in>set table. INT64_MIN \<le> PF r \<and> PF r \<le> INT64_MAX \<and>
                          INT64_MIN \<le> PA r \<and> PA r \<le> INT64_MAX \<and>
                          INT64_MIN \<le> PF r - PA r \<and> PF r - PA r \<le> INT64_MAX)
          \<longrightarrow> (\<forall>r\<in>set table. PD r = PF r - PA r) \<and> sum_list (map PD table) = 0)"
proof (intro conjI impI)
  from compute_standings_InrD(1) [OF assms] have known: "known_teams (keys_of ts) ms"
    by (simp only: known_teams_keys_of)
  have "sum_list (map PF table) = (\<Sum>k\<leftarrow>keys_of ts. PF (team_total ms k))"
    by (simp add: table_sum [OF assms, where g = PF] to_row_fields)
  moreover have "sum_list (map PA table) = (\<Sum>k\<leftarrow>keys_of ts. PA (team_total ms k))"
    by (simp add: table_sum [OF assms, where g = PA] to_row_fields)
  ultimately show eq: "sum_list (map PF table) = sum_list (map PA table)"
    using sum_PF_total [OF distinct_keys_of known] sum_PA_total [OF distinct_keys_of known]
    by simp
  assume fits: "\<forall>r\<in>set table. INT64_MIN \<le> PF r \<and> PF r \<le> INT64_MAX \<and>
                          INT64_MIN \<le> PA r \<and> PA r \<le> INT64_MAX \<and>
                          INT64_MIN \<le> PF r - PA r \<and> PF r - PA r \<le> INT64_MAX"
  then have "infer_dtype (map PF table) = Int64" "infer_dtype (map PA table) = Int64"
    by (simp_all add: infer_dtype_Int64)
  with fits show pd: "\<forall>r\<in>set table. PD r = PF r - PA r"
    by (simp add: table_PD [OF assms] wrap_int64_id)
  then have "map PD table = map (\<lambda>r. PF r - PA r) table" by simp
  then have "sum_list (map PD table) = sum_list (map PF table) - sum_list (map PA table)"
    by (simp only: sum_list_subtractf)
  with eq show "sum_list (map PD table) = 0" by simp
qed

theorem points_balance_witness:
  "compute_standings tiebreak_matches [''A'', ''B'', ''C'']
     = Inr [row ''A'' 2 1 1 20 16 4 2, row ''B'' 2 1 1 16 14 2 2, row ''C'' 2 1 1 14 20 (- 6) 2] \<and>
   sum_list (map PF [row ''A'' 2 1 1 20 16 4 2, row ''B'' 2 1 1 16 14 2 2, row ''C'' 2 1 1 14 20 (- 6) 2])
     = sum_list (map PA [row ''A'' 2 1 1 20 16 4 2, row ''B'' 2 1 1 16 14 2 2, row ''C'' 2 1 1 14 20 (- 6) 2]) \<and>
   list_all (\<lambda>r. INT64_MIN \<le> PF r \<and> PF r \<le> INT64_MAX \<and>
                  INT64_MIN \<le> PA r \<and> PA r \<le> INT64_MAX \<and>
                  INT64_MIN \<le> PF r - PA r \<and> PF r - PA r \<le> INT64_MAX)
     [row ''A'' 2 1 1 20 16 4 2, row ''B'' 2 1 1 16 14 2 2, row ''C'' 2 1 1 14 20 (- 6) 2] \<and>
   sum_list (map PD [row ''A'' 2 1 1 20 16 4 2, row ''B'' 2 1 1 16 14 2 2, row ''C'' 2 1 1 14 20 (- 6) 2]) = 0"
proof -
  let ?t = "[row ''A'' 2 1 1 20 16 4 2, row ''B'' 2 1 1 16 14 2 2, row ''C'' 2 1 1 14 20 (- 6) 2]"
  have h: "compute_standings tiebreak_matches [''A'', ''B'', ''C''] = Inr ?t"
    by code_simp
  have fits: "\<forall>r\<in>set ?t. INT64_MIN \<le> PF r \<and> PF r \<le> INT64_MAX \<and>
                          INT64_MIN \<le> PA r \<and> PA r \<le> INT64_MAX \<and>
                          INT64_MIN \<le> PF r - PA r \<and> PF r - PA r \<le> INT64_MAX"
    by (simp add: INT64_MIN_def INT64_MAX_def)
  from points_balance [OF h] fits
  have "sum_list (map PF ?t) = sum_list (map PA ?t)" and "sum_list (map PD ?t) = 0"
    by blast+
  moreover from fits have "list_all (\<lambda>r. INT64_MIN \<le> PF r \<and> PF r \<le> INT64_MAX \<and>
                  INT64_MIN \<le> PA r \<and> PA r \<le> INT64_MAX \<and>
                  INT64_MIN \<le> PF r - PA r \<and> PF r - PA r \<le> INT64_MAX) ?t"
    unfolding list_all_iff .
  ultimately show ?thesis using h by (intro conjI)
qed

subsection \<open>One row per team\<close>

text \<open>
  Claim C10. A returned table has exactly one row for each distinct team of the team
  list: the team names of the rows are pairwise different and are the teams of the list,
  so a team listed twice still gets a single accumulator and a single row.
\<close>

theorem one_row_per_team:
  assumes "compute_standings ms ts = Inr table"
  shows "distinct (map team table) \<and> set (map team table) = set ts
         \<and> length table = card (set ts)"
proof -
  from compute_standings_InrD(3) [OF assms]
  have "mset table = mset (final_rows ms ts)" by (simp add: mset_sort_values)
  then have "mset (map team table) = mset (map team (final_rows ms ts))"
    by (metis mset_map)
  also have "map team (final_rows ms ts) = keys_of ts"
    using final_rows_keys [of ms ts] by (auto simp: comp_def to_row_fields)
  finally have m: "mset (map team table) = mset (keys_of ts)" .
  from m have d: "distinct (map team table)"
    using distinct_keys_of [of ts] by (metis mset_eq_imp_distinct_iff)
  from m have s: "set (map team table) = set ts"
    using set_keys_of [of ts] by (metis mset_eq_setD)
  from d s have "length table = card (set ts)"
    by (metis distinct_card length_map)
  with d s show ?thesis by simp
qed

theorem one_row_per_team_witness:
  "compute_standings [game ''X'' ''Y'' 11 5] [''X'', ''Y'', ''X'']
     = Inr [row ''X'' 1 1 0 11 5 6 2, row ''Y'' 1 0 1 5 11 (- 6) 0] \<and>
   (distinct (map team [row ''X'' 1 1 0 11 5 6 2, row ''Y'' 1 0 1 5 11 (- 6) 0]) \<and>
    set (map team [row ''X'' 1 1 0 11 5 6 2, row ''Y'' 1 0 1 5 11 (- 6) 0]) = set [''X'', ''Y'', ''X''] \<and>
    length [row ''X'' 1 1 0 11 5 6 2, row ''Y'' 1 0 1 5 11 (- 6) 0] = card (set [''X'', ''Y'', ''X'']))"
proof -
  have h: "compute_standings [game ''X'' ''Y'' 11 5] [''X'', ''Y'', ''X'']
     = Inr [row ''X'' 1 1 0 11 5 6 2, row ''Y'' 1 0 1 5 11 (- 6) 0]"
    by code_simp
  from h one_row_per_team [OF h] show ?thesis by (rule conjI)
qed

end
